theory Spec2Isabelle
  imports Main
begin

section \<open>The data-fetching hook \<open>useFetchedData\<close>\<close>

text \<open>
  The hook keeps three React state cells (\<open>data\<close>, \<open>error\<close>, \<open>loading\<close>), starts one
  \<open>fetch\<close> in an effect that runs once after mount, and returns a cleanup that calls
  \<open>abortController.abort()\<close>. The asynchronous function \<open>fetchData\<close> suspends at two
  \<open>await\<close>s; the embedding makes each suspension point a program counter and each
  settlement of the awaited promise an event delivered by the environment (the
  \<open>fetch\<close> implementation and the event loop, which the hook does not control).
  Every call the hook makes to the outside (fetch, response.json, abort, the three
  setters) is appended to a log, in the order the calls happen.
\<close>

subsection \<open>JavaScript values\<close>

text \<open>
  A parsed JSON body and a rejection reason are arbitrary JavaScript values, \<open>null\<close>
  included; the hook passes them through without looking inside. \<open>JError name message\<close>
  is an Error object (a \<open>DOMException\<close> named AbortError among them). Numbers are kept
  as integers: the hook never computes with them.
\<close>

datatype jsval =
    JNull
  | JUndefined
  | JBool bool
  | JNum int
  | JStr string
  | JArr "jsval list"
  | JObj "(string \<times> jsval) list"
  | JError string string

subsection \<open>The request\<close>

definition API_URL :: string where
  "API_URL = ''https://jsonplaceholder.typicode.com/posts''"

text \<open>
  The second argument of \<open>fetch\<close>: the hook passes \<open>{ signal: abortController.signal }\<close>
  and no \<open>method\<close>. An AbortController is identified by a number.
\<close>

record fetch_init =
  init_method :: "string option"
  init_signal :: "nat option"

text \<open>The method of the request that \<open>fetch\<close> builds: GET unless the init names one.\<close>

definition request_method :: "fetch_init \<Rightarrow> string" where
  "request_method i = (case init_method i of None \<Rightarrow> ''GET'' | Some m \<Rightarrow> m)"

text \<open>What a resolved \<open>fetch\<close> hands back; \<open>response.ok\<close> is true for a 2xx status.\<close>

record response =
  status :: nat

definition response_ok :: "response \<Rightarrow> bool" where
  "response_ok r = (200 \<le> status r \<and> status r \<le> 299)"

subsection \<open>The hook's state and its calls\<close>

datatype call =
    Fetch string fetch_init
  | ResponseJson
  | Abort nat
  | SetData jsval
  | SetError jsval
  | SetLoading bool

text \<open>Where \<open>fetchData\<close> is suspended: at the first \<open>await\<close>, at the second, or finished.\<close>

datatype pc = AwaitFetch | AwaitJson | Done

record hook =
  data :: jsval
  error :: jsval
  loading :: bool
  abortController :: nat
  pc :: pc
  mounted :: bool
  calls :: "call list"

text \<open>
  The setters of \<open>useState\<close>. Every call is logged. React applies the update to a
  mounted component and drops the update of an unmounted one: there the cell keeps
  its value, and the hook is never rendered again.
\<close>

definition setData :: "jsval \<Rightarrow> hook \<Rightarrow> hook" where
  "setData v s = (if mounted s then s\<lparr>data := v\<rparr> else s)\<lparr>calls := calls s @ [SetData v]\<rparr>"

definition setError :: "jsval \<Rightarrow> hook \<Rightarrow> hook" where
  "setError e s = (if mounted s then s\<lparr>error := e\<rparr> else s)\<lparr>calls := calls s @ [SetError e]\<rparr>"

definition setLoading :: "bool \<Rightarrow> hook \<Rightarrow> hook" where
  "setLoading b s =
     (if mounted s then s\<lparr>loading := b\<rparr> else s)\<lparr>calls := calls s @ [SetLoading b]\<rparr>"

text \<open>\<open>finally { setLoading(false); }\<close>, after which \<open>fetchData\<close> has returned.\<close>

definition finally_branch :: "hook \<Rightarrow> hook" where
  "finally_branch s = (setLoading False s)\<lparr>pc := Done\<rparr>"

text \<open>\<open>catch (error) { setError(error); }\<close>, followed by the \<open>finally\<close> block.\<close>

definition catch_branch :: "jsval \<Rightarrow> hook \<Rightarrow> hook" where
  "catch_branch e s = finally_branch (setError e s)"

text \<open>
  \<open>fetchData()\<close> up to its first \<open>await\<close>: the call
  \<open>fetch(API_URL, { signal: abortController.signal })\<close>.
\<close>

definition fetchData :: "hook \<Rightarrow> hook" where
  "fetchData s =
     s\<lparr>calls := calls s @
          [Fetch API_URL \<lparr>init_method = None, init_signal = Some (abortController s)\<rparr>],
       pc := AwaitFetch\<rparr>"

text \<open>
  The continuation after \<open>await fetch(...)\<close>: on a response, \<open>response.json()\<close> is
  called and awaited (the response itself is not inspected); on a rejection the
  \<open>catch\<close> block runs.
\<close>

definition resume_fetch :: "jsval + response \<Rightarrow> hook \<Rightarrow> hook" where
  "resume_fetch outcome s =
     (case outcome of
        Inr r \<Rightarrow> s\<lparr>calls := calls s @ [ResponseJson], pc := AwaitJson\<rparr>
      | Inl e \<Rightarrow> catch_branch e s)"

text \<open>The continuation after \<open>await response.json()\<close>: \<open>setData(json)\<close> or the \<open>catch\<close> block.\<close>

definition resume_json :: "jsval + jsval \<Rightarrow> hook \<Rightarrow> hook" where
  "resume_json outcome s =
     (case outcome of
        Inr json \<Rightarrow> finally_branch (setData json s)
      | Inl e \<Rightarrow> catch_branch e s)"

text \<open>The function the effect returns: \<open>() => { abortController.abort(); }\<close>.\<close>

definition cleanup :: "hook \<Rightarrow> hook" where
  "cleanup s = s\<lparr>calls := calls s @ [Abort (abortController s)]\<rparr>"

text \<open>
  One activation: the three \<open>useState\<close> initial values, then the effect body
  (\<open>new AbortController()\<close>, here the controller \<open>c\<close>, and \<open>fetchData()\<close>).
\<close>

definition mount :: "nat \<Rightarrow> hook" where
  "mount c =
     fetchData \<lparr>data = JNull, error = JNull, loading = True, abortController = c,
       pc = AwaitFetch, mounted = True, calls = []\<rparr>"

text \<open>\<open>return { data, error, loading }\<close>.\<close>

definition render :: "hook \<Rightarrow> jsval \<times> jsval \<times> bool" where
  "render s = (data s, error s, loading s)"

subsection \<open>Events\<close>

text \<open>
  The environment settles the promise \<open>fetchData\<close> is awaiting, or unmounts the
  component. A settlement runs \<open>fetchData\<close> on to its next \<open>await\<close> or to its end
  (a continuation runs to completion, and the setter calls made in it are rendered
  together). A settlement of a promise that is not being awaited cannot happen and
  leaves the state as it is; React runs the cleanup of an effect once, so an unmount of
  an unmounted component does nothing. A \<open>response.json()\<close> that throws at once is the
  event \<open>JsonRejected\<close> right after \<open>FetchResolved\<close>: the same \<open>catch\<close> block handles both.
\<close>

datatype event =
    FetchResolved response
  | FetchRejected jsval
  | JsonResolved jsval
  | JsonRejected jsval
  | Unmount

fun step :: "event \<Rightarrow> hook \<Rightarrow> hook" where
  "step (FetchResolved r) s = (if pc s = AwaitFetch then resume_fetch (Inr r) s else s)"
| "step (FetchRejected e) s = (if pc s = AwaitFetch then resume_fetch (Inl e) s else s)"
| "step (JsonResolved j) s = (if pc s = AwaitJson then resume_json (Inr j) s else s)"
| "step (JsonRejected e) s = (if pc s = AwaitJson then resume_json (Inl e) s else s)"
| "step Unmount s = (if mounted s then (cleanup s)\<lparr>mounted := False\<rparr> else s)"

fun run :: "hook \<Rightarrow> event list \<Rightarrow> hook" where
  "run s [] = s"
| "run s (e # t) = run (step e s) t"

text \<open>The states an activation passes through, the first one included.\<close>

fun states :: "hook \<Rightarrow> event list \<Rightarrow> hook list" where
  "states s [] = [s]"
| "states s (e # t) = s # states (step e s) t"

subsection \<open>Reading the log\<close>

fun is_Fetch :: "call \<Rightarrow> bool" where
  "is_Fetch (Fetch u i) = True"
| "is_Fetch c = False"

fun is_Abort :: "call \<Rightarrow> bool" where
  "is_Abort (Abort c) = True"
| "is_Abort c = False"

fun is_SetLoading :: "call \<Rightarrow> bool" where
  "is_SetLoading (SetLoading b) = True"
| "is_SetLoading c = False"

text \<open>The requests started, the aborts signalled, and the calls other than aborts.\<close>

definition requests :: "hook \<Rightarrow> call list" where
  "requests s = filter is_Fetch (calls s)"

definition aborts :: "hook \<Rightarrow> call list" where
  "aborts s = filter is_Abort (calls s)"

definition work :: "hook \<Rightarrow> call list" where
  "work s = filter (\<lambda>x. \<not> is_Abort x) (calls s)"

text \<open>A settlement that resolves a promise (the others reject one, or unmount).\<close>

fun is_resolution :: "event \<Rightarrow> bool" where
  "is_resolution (FetchResolved r) = True"
| "is_resolution (JsonResolved j) = True"
| "is_resolution e = False"

text \<open>
  An environment whose \<open>fetch\<close> honours the abort signal resolves no promise of an
  aborted request: what it still delivers are rejections.
\<close>

definition honours_abort :: "event list \<Rightarrow> bool" where
  "honours_abort t = list_all (\<lambda>e. \<not> is_resolution e) t"

text \<open>The cells and the program counter: what a settlement reads and writes.\<close>

definition cells :: "hook \<Rightarrow> jsval \<times> jsval \<times> bool \<times> pc" where
  "cells s = (data s, error s, loading s, pc s)"

definition the_request :: "nat \<Rightarrow> call" where
  "the_request c = Fetch API_URL \<lparr>init_method = None, init_signal = Some c\<rparr>"

subsection \<open>The reachable states\<close>

text \<open>
  What holds of every state of an activation with controller \<open>c\<close>: the aborts follow
  the mounted flag, and the other calls are determined by the program counter. While
  \<open>fetchData\<close> is suspended the cells have their initial values; once it has finished
  they hold what the setters were given, or, when it finished after the unmount, still
  their initial values.
\<close>

definition reach_inv :: "nat \<Rightarrow> hook \<Rightarrow> bool" where
  "reach_inv c s =
     (abortController s = c \<and>
      aborts s = (if mounted s then [] else [Abort c]) \<and>
      (case pc s of
         AwaitFetch \<Rightarrow>
           data s = JNull \<and> error s = JNull \<and> loading s \<and> work s = [the_request c]
       | AwaitJson \<Rightarrow>
           data s = JNull \<and> error s = JNull \<and> loading s \<and>
           work s = [the_request c, ResponseJson]
       | Done \<Rightarrow>
           (\<exists>e. (work s = [the_request c, SetError e, SetLoading False] \<or>
                 work s = [the_request c, ResponseJson, SetError e, SetLoading False]) \<and>
                data s = JNull \<and>
                (error s = e \<and> \<not> loading s \<or>
                 \<not> mounted s \<and> error s = JNull \<and> loading s))
           \<or> (\<exists>v. work s = [the_request c, ResponseJson, SetData v, SetLoading False] \<and>
                error s = JNull \<and>
                (data s = v \<and> \<not> loading s \<or>
                 \<not> mounted s \<and> data s = JNull \<and> loading s))))"

lemmas hook_defs =
  setData_def setError_def setLoading_def finally_branch_def catch_branch_def
  fetchData_def resume_fetch_def resume_json_def cleanup_def mount_def

lemma reach_inv_mount: "reach_inv c (mount c)"
  by (simp add: reach_inv_def hook_defs aborts_def work_def the_request_def)

lemma reach_inv_step: "reach_inv c s \<Longrightarrow> reach_inv c (step e s)"
  by (cases e; cases "pc s"; cases "mounted s")
     (auto simp: reach_inv_def hook_defs aborts_def work_def)

lemma reach_inv_run: "reach_inv c s \<Longrightarrow> reach_inv c (run s t)"
  by (induction t arbitrary: s) (simp_all add: reach_inv_step)

lemma reach_inv_reachable: "reach_inv c (run (mount c) t)"
  by (rule reach_inv_run [OF reach_inv_mount])

lemma run_append: "run s (t1 @ t2) = run (run s t1) t2"
  by (induction t1 arbitrary: s) simp_all

lemma step_Done:
  "pc s = Done \<Longrightarrow> cells (step e s) = cells s \<and> work (step e s) = work s"
  by (cases e) (simp_all add: cells_def work_def cleanup_def)

lemma run_Done: "pc s = Done \<Longrightarrow> cells (run s t) = cells s \<and> work (run s t) = work s"
proof (induction t arbitrary: s)
  case Nil
  then show ?case by simp
next
  case (Cons e t)
  have "pc (step e s) = Done"
    using step_Done [OF Cons.prems, of e] Cons.prems by (simp add: cells_def)
  then show ?case
    using Cons.IH [of "step e s"] step_Done [OF Cons.prems, of e] by simp
qed

lemma mounted_step: "mounted (step e s) = (mounted s \<and> e \<noteq> Unmount)"
  by (cases e) (simp_all add: hook_defs split: sum.splits)

lemma mounted_run: "mounted (run s t) = (mounted s \<and> Unmount \<notin> set t)"
  by (induction t arbitrary: s) (auto simp: mounted_step)

lemma requests_work: "requests s = filter is_Fetch (work s)"
proof -
  have "\<And>x. (\<not> is_Abort x \<and> is_Fetch x) = is_Fetch x"
    by (case_tac x) simp_all
  then show ?thesis by (simp add: requests_def work_def)
qed

lemma requests_reach: "reach_inv c s \<Longrightarrow> requests s = [the_request c]"
  by (cases "pc s") (auto simp: reach_inv_def requests_work the_request_def)

lemma in_work: "x \<in> set (work s) \<longleftrightarrow> x \<in> set (calls s) \<and> \<not> is_Abort x"
  by (simp add: work_def)

lemma render_cells: "render s = (case cells s of (d, e, l, p) \<Rightarrow> (d, e, l))"
  by (simp add: render_def cells_def)

lemma filter_work:
  assumes "\<And>x. Q x \<Longrightarrow> \<not> is_Abort x"
  shows "filter Q (calls s) = filter Q (work s)"
proof -
  have "\<And>x. (\<not> is_Abort x \<and> Q x) = Q x" using assms by blast
  then show ?thesis by (simp add: work_def)
qed

lemma setLoading_calls_reach:
  assumes "reach_inv c s"
  shows "filter is_SetLoading (calls s) = (if pc s = Done then [SetLoading False] else [])"
proof -
  have "\<And>x. is_SetLoading x \<Longrightarrow> \<not> is_Abort x" by (case_tac x) simp_all
  then have "filter is_SetLoading (calls s) = filter is_SetLoading (work s)"
    by (rule filter_work)
  then show ?thesis
    using assms by (cases "pc s") (auto simp: reach_inv_def the_request_def)
qed

text \<open>The loading cell is never set back to true.\<close>

lemma loading_step: "loading (step e s) \<Longrightarrow> loading s"
  by (cases e) (auto simp: hook_defs split: if_splits)

lemma loading_states_False:
  "\<not> loading s \<Longrightarrow> map loading (states s t) = replicate (Suc (length t)) False"
proof (induction t arbitrary: s)
  case Nil
  then show ?case by simp
next
  case (Cons e t)
  have "\<not> loading (step e s)" using Cons.prems loading_step by blast
  then show ?case using Cons.IH [of "step e s"] Cons.prems by simp
qed

lemma loading_states_shape:
  "loading s \<Longrightarrow>
     \<exists>k m. map loading (states s t) = replicate (Suc k) True @ replicate m False"
proof (induction t arbitrary: s)
  case Nil
  have "map loading (states s []) = replicate (Suc 0) True @ replicate 0 False"
    using Nil by simp
  then show ?case by blast
next
  case (Cons e t)
  show ?case
  proof (cases "loading (step e s)")
    case True
    from Cons.IH [OF True] obtain k m where
      "map loading (states (step e s) t) = replicate (Suc k) True @ replicate m False"
      by blast
    then have "map loading (states s (e # t)) =
        replicate (Suc (Suc k)) True @ replicate m False"
      using Cons.prems by simp
    then show ?thesis by blast
  next
    case False
    have "map loading (states s (e # t)) =
        replicate (Suc 0) True @ replicate (Suc (length t)) False"
      using loading_states_False [OF False, of t] Cons.prems by simp
    then show ?thesis by blast
  qed
qed

text \<open>Once unmounted, the cells do not change; once finished as well, nothing changes.\<close>

lemma step_unmounted: "\<not> mounted s \<Longrightarrow> render (step e s) = render s"
  by (cases e) (simp_all add: render_def hook_defs)

lemma run_unmounted: "\<not> mounted s \<Longrightarrow> render (run s t) = render s"
proof (induction t arbitrary: s)
  case Nil
  then show ?case by simp
next
  case (Cons e t)
  have "\<not> mounted (step e s)" using Cons.prems by (simp add: mounted_step)
  then show ?case using Cons.IH [of "step e s"] step_unmounted [OF Cons.prems, of e] by simp
qed

lemma step_Done_unmounted: "pc s = Done \<Longrightarrow> \<not> mounted s \<Longrightarrow> step e s = s"
  by (cases e) simp_all

lemma run_Done_unmounted: "pc s = Done \<Longrightarrow> \<not> mounted s \<Longrightarrow> run s t = s"
  by (induction t) (simp_all add: step_Done_unmounted)

lemma run_aborted:
  assumes "pc s \<noteq> Done" and "\<not> mounted s" and "honours_abort t"
  shows "run s t = s \<or> (\<exists>e. run s t = catch_branch e s)"
  using assms
proof (induction t)
  case Nil
  then show ?case by simp
next
  case (Cons a t)
  have t: "honours_abort t" using Cons.prems(3) by (simp add: honours_abort_def)
  have "step a s = s \<or> (\<exists>e. step a s = catch_branch e s)"
    using Cons.prems by (cases a) (auto simp: honours_abort_def resume_fetch_def resume_json_def)
  then show ?case
  proof
    assume "step a s = s"
    then show ?thesis using Cons.IH [OF Cons.prems(1,2) t] by simp
  next
    assume "\<exists>e. step a s = catch_branch e s"
    then obtain e where e: "step a s = catch_branch e s" by blast
    have "pc (catch_branch e s) = Done" and "\<not> mounted (catch_branch e s)"
      using Cons.prems(2) by (simp_all add: hook_defs)
    then have "run (catch_branch e s) t = catch_branch e s"
      by (rule run_Done_unmounted)
    with e show ?thesis by auto
  qed
qed

text \<open>The three ways a mounted activation settles, and the state each leaves for good.\<close>

lemma settled_fetch_rejected:
  "cells (run (mount c) (FetchRejected E # t)) = (JNull, E, False, Done)"
proof -
  let ?s = "step (FetchRejected E) (mount c)"
  have "pc ?s = Done" by (simp add: hook_defs)
  from run_Done [OF this, of t] show ?thesis by (simp add: cells_def hook_defs)
qed

lemma settled_json_rejected:
  "cells (run (mount c) (FetchResolved r # JsonRejected E # t)) = (JNull, E, False, Done)"
proof -
  let ?s = "step (JsonRejected E) (step (FetchResolved r) (mount c))"
  have "pc ?s = Done" by (simp add: hook_defs)
  from run_Done [OF this, of t] show ?thesis by (simp add: cells_def hook_defs)
qed

lemma settled_json_resolved:
  "cells (run (mount c) (FetchResolved r # JsonResolved P # t)) = (P, JNull, False, Done)"
proof -
  let ?s = "step (JsonResolved P) (step (FetchResolved r) (mount c))"
  have "pc ?s = Done" by (simp add: hook_defs)
  from run_Done [OF this, of t] show ?thesis by (simp add: cells_def hook_defs)
qed

section \<open>The claims\<close>

text \<open>
  C2. For every activation, the state the hook returns before the asynchronous request
  has settled is exactly \<open>(data = null, error = null, loading = true)\<close>: this is what
  the first render returns, and what every later render returns as long as
  \<open>fetchData\<close> is still suspended at one of its two \<open>await\<close>s, whatever events
  (an unmount, the arrival of the response) have happened.
\<close>

theorem C2_initial_state:
  "render (mount c) = (JNull, JNull, True) \<and>
   (pc (run (mount c) t) \<noteq> Done \<longrightarrow> render (run (mount c) t) = (JNull, JNull, True))"
proof
  show "render (mount c) = (JNull, JNull, True)"
    by (simp add: render_def hook_defs)
  show "pc (run (mount c) t) \<noteq> Done \<longrightarrow> render (run (mount c) t) = (JNull, JNull, True)"
    using reach_inv_reachable [of c t]
    by (cases "pc (run (mount c) t)") (simp_all add: reach_inv_def render_def)
qed

theorem C2_initial_state_witness:
  "pc (run (mount 0) [FetchResolved \<lparr>status = 200\<rparr>, Unmount]) \<noteq> Done \<and>
   render (run (mount 0) [FetchResolved \<lparr>status = 200\<rparr>, Unmount]) = (JNull, JNull, True)"
  using C2_initial_state [of 0 "[FetchResolved \<lparr>status = 200\<rparr>, Unmount]"]
  by (simp add: hook_defs)

text \<open>
  C7. For every activation, exactly one outbound request is started: whatever events
  follow the mount, the log holds one call of \<open>fetch\<close>, its target is the constant
  \<open>API_URL\<close>, it carries the signal of the activation's AbortController, and it names
  no method, so the request is a GET.
\<close>

theorem C7_one_get_request:
  "requests (run (mount c) t) =
     [Fetch API_URL \<lparr>init_method = None, init_signal = Some c\<rparr>] \<and>
   map (\<lambda>x. case x of Fetch u i \<Rightarrow> (u, request_method i) | _ \<Rightarrow> ([], []))
     (requests (run (mount c) t)) =
     [(''https://jsonplaceholder.typicode.com/posts'', ''GET'')]"
  using requests_reach [OF reach_inv_reachable, of c t]
  by (simp add: the_request_def request_method_def API_URL_def)

text \<open>
  C6. For every activation, deactivation invokes \<open>abort\<close> exactly once, on the
  controller whose signal the request carries: after a trace with an unmount in it the
  log holds one abort, whether or not the request had settled when the unmount came
  (the events before it are arbitrary), and before any unmount it holds none.
\<close>

theorem C6_abort_once:
  "aborts (run (mount c) t) = (if Unmount \<in> set t then [Abort c] else [])"
  using reach_inv_reachable [of c t] mounted_run [of "mount c" t]
  by (simp add: reach_inv_def mount_def fetchData_def)

text \<open>
  C3. For every activation in which the fetch resolves and its body parses to a value
  \<open>P\<close>, the state becomes exactly \<open>(data = P, error = null, loading = false)\<close>: the
  hook returns the initial state at mount and after the response has arrived, and
  \<open>(P, null, false)\<close> once \<open>response.json()\<close> has resolved with \<open>P\<close>; it returns that
  state after every continuation of the trace, an unmount included. (An activation
  ends at its unmount: a settlement that arrives later changes no cell, see C1.)
\<close>

theorem C3_success_state:
  "map render (states (mount c) [FetchResolved r, JsonResolved P]) =
     [(JNull, JNull, True), (JNull, JNull, True), (P, JNull, False)] \<and>
   render (run (mount c) (FetchResolved r # JsonResolved P # t)) = (P, JNull, False)"
proof
  show "map render (states (mount c) [FetchResolved r, JsonResolved P]) =
     [(JNull, JNull, True), (JNull, JNull, True), (P, JNull, False)]"
    by (simp add: render_def hook_defs)
  show "render (run (mount c) (FetchResolved r # JsonResolved P # t)) = (P, JNull, False)"
    using settled_json_resolved [of c r P t] by (simp add: render_cells)
qed

text \<open>
  C4. For every activation in which the request fails with \<open>E\<close>, that is the fetch
  promise rejects with \<open>E\<close>, or it resolves and the promise of \<open>response.json()\<close>
  rejects with \<open>E\<close>, the state becomes \<open>(data = null, error = E, loading = false)\<close> and
  stays so after every continuation of the trace; \<open>error\<close> is the very value \<open>E\<close>,
  neither wrapped nor classified. (A rejection that arrives after the unmount changes
  no cell, see C1.)
\<close>

theorem C4_failure_state:
  "render (run (mount c) (FetchRejected E # t)) = (JNull, E, False) \<and>
   render (run (mount c) (FetchResolved r # JsonRejected E # t)) = (JNull, E, False)"
  using settled_fetch_rejected [of c E t] settled_json_rejected [of c r E t]
  by (simp add: render_cells)

text \<open>
  C10. A resolved fetch is treated as a success whatever its HTTP status: the hook never
  reads the response's status, so the run after a response \<open>r\<close> of any status (a 404 or
  a 500 as well) is the run after a 200 response, and when the body parses to \<open>P\<close> the
  state is \<open>(data = P, error = null, loading = false)\<close>; so it is for a 404 response,
  which is not \<open>ok\<close>.
\<close>

theorem C10_status_ignored:
  "run (mount c) (FetchResolved r # t) = run (mount c) (FetchResolved \<lparr>status = 200\<rparr> # t) \<and>
   render (run (mount c) (FetchResolved r # JsonResolved P # t)) = (P, JNull, False) \<and>
   \<not> response_ok \<lparr>status = 404\<rparr> \<and>
   render (run (mount c) [FetchResolved \<lparr>status = 404\<rparr>, JsonResolved P]) = (P, JNull, False)"
proof (intro conjI)
  show "\<not> response_ok \<lparr>status = 404\<rparr>" by (simp add: response_ok_def)
  show "render (run (mount c) [FetchResolved \<lparr>status = 404\<rparr>, JsonResolved P]) =
      (P, JNull, False)"
    by (simp add: render_def hook_defs)
  show "run (mount c) (FetchResolved r # t) = run (mount c) (FetchResolved \<lparr>status = 200\<rparr> # t)"
    by (simp add: resume_fetch_def)
  show "render (run (mount c) (FetchResolved r # JsonResolved P # t)) = (P, JNull, False)"
    using settled_json_resolved [of c r P t] by (simp add: render_cells)
qed

text \<open>
  C9. In every reachable state of one activation at most one of \<open>data\<close> and \<open>error\<close>
  is non-null. The success transition and the failure transition exclude each other:
  once \<open>setData\<close> has been called, \<open>setError\<close> is never called and \<open>error\<close> is null;
  once \<open>setError\<close> has been called, \<open>setData\<close> is never called and \<open>data\<close> is null.
\<close>

theorem C9_data_error_exclusive:
  "(data (run (mount c) t) = JNull \<or> error (run (mount c) t) = JNull) \<and>
   (\<forall>v. SetData v \<in> set (calls (run (mount c) t)) \<longrightarrow>
      error (run (mount c) t) = JNull \<and> (\<forall>e. SetError e \<notin> set (calls (run (mount c) t)))) \<and>
   (\<forall>e. SetError e \<in> set (calls (run (mount c) t)) \<longrightarrow>
      data (run (mount c) t) = JNull \<and> (\<forall>v. SetData v \<notin> set (calls (run (mount c) t))))"
proof -
  let ?s = "run (mount c) t"
  have inv: "reach_inv c ?s" by (rule reach_inv_reachable)
  have d: "\<And>v. SetData v \<in> set (calls ?s) \<longleftrightarrow> SetData v \<in> set (work ?s)"
    and e: "\<And>e. SetError e \<in> set (calls ?s) \<longleftrightarrow> SetError e \<in> set (work ?s)"
    by (simp_all add: in_work)
  show ?thesis
    unfolding d e using inv
    by (cases "pc ?s") (auto simp: reach_inv_def the_request_def)
qed

theorem C9_data_error_exclusive_witness:
  "SetError (JStr ''boom'') \<in> set (calls (run (mount 0) [FetchRejected (JStr ''boom'')])) \<and>
   data (run (mount 0) [FetchRejected (JStr ''boom'')]) = JNull \<and>
   SetData (JArr []) \<notin> set (calls (run (mount 0) [FetchRejected (JStr ''boom'')]))"
  using C9_data_error_exclusive [of 0 "[FetchRejected (JStr ''boom'')]"]
  by (simp add: hook_defs)

text \<open>
  C8. After a failure (\<open>setError(e)\<close> has been called), the failure is terminal for
  the activation: whatever events follow, no further request is issued (the requests
  are the one started at mount), \<open>fetchData\<close> stays finished, \<open>data\<close> stays null and
  \<open>error\<close> stays what it was; when the failure came while the hook was mounted, so
  that it has set the error field, that is \<open>e\<close>.
\<close>

theorem C8_failure_terminal:
  assumes "SetError e \<in> set (calls (run (mount c) t1))"
  shows "requests (run (mount c) (t1 @ t2)) = requests (run (mount c) t1) \<and>
         length (requests (run (mount c) (t1 @ t2))) = 1 \<and>
         pc (run (mount c) (t1 @ t2)) = Done \<and>
         data (run (mount c) (t1 @ t2)) = JNull \<and>
         error (run (mount c) (t1 @ t2)) = error (run (mount c) t1) \<and>
         (Unmount \<notin> set t1 \<longrightarrow> error (run (mount c) (t1 @ t2)) = e)"
proof -
  let ?s1 = "run (mount c) t1"
  have inv: "reach_inv c ?s1" by (rule reach_inv_reachable)
  have w: "SetError e \<in> set (work ?s1)" using assms by (simp add: in_work)
  have m: "Unmount \<notin> set t1 \<Longrightarrow> mounted ?s1"
    using mounted_run [of "mount c" t1] by (simp add: mount_def fetchData_def)
  have s1: "pc ?s1 = Done \<and> data ?s1 = JNull \<and> (mounted ?s1 \<longrightarrow> error ?s1 = e)"
    using inv w by (cases "pc ?s1") (auto simp: reach_inv_def the_request_def)
  then have "cells (run ?s1 t2) = cells ?s1" using run_Done [of ?s1 t2] by simp
  then have c: "pc (run (mount c) (t1 @ t2)) = Done \<and> data (run (mount c) (t1 @ t2)) = JNull \<and>
      error (run (mount c) (t1 @ t2)) = error ?s1"
    using s1 by (simp add: cells_def run_append)
  have "requests (run (mount c) (t1 @ t2)) = [the_request c]"
    and "requests ?s1 = [the_request c]"
    by (rule requests_reach [OF reach_inv_reachable])+
  with c s1 m show ?thesis by simp
qed

theorem C8_failure_terminal_witness:
  "SetError (JStr ''boom'') \<in> set (calls (run (mount 0) [FetchRejected (JStr ''boom'')])) \<and>
   Unmount \<notin> set [FetchRejected (JStr ''boom'')] \<and>
   requests (run (mount 0) ([FetchRejected (JStr ''boom'')] @ [JsonResolved JNull, Unmount])) =
     requests (run (mount 0) [FetchRejected (JStr ''boom'')]) \<and>
   data (run (mount 0) ([FetchRejected (JStr ''boom'')] @ [JsonResolved JNull, Unmount])) = JNull \<and>
   error (run (mount 0) ([FetchRejected (JStr ''boom'')] @ [JsonResolved JNull, Unmount])) =
     JStr ''boom''"
  using C8_failure_terminal [of "JStr ''boom''" 0 "[FetchRejected (JStr ''boom'')]"
    "[JsonResolved JNull, Unmount]"]
  by (simp add: hook_defs)

text \<open>
  C5. For every activation the loading flag goes from true to false exactly once.
  Along every trace the values of the flag are a run of true (the first state
  included) followed by a run of false: it is never set back to true, and
  \<open>setLoading\<close> is called at most once, with \<open>false\<close>, when \<open>fetchData\<close> finishes. When
  the request settles, by the rejection of the fetch, by the rejection of
  \<open>response.json()\<close> or by its resolution, the flag is true up to the settlement and
  false from it on, whatever follows, and \<open>setLoading(false)\<close> is the one call of
  \<open>setLoading\<close> in the log.
\<close>

theorem C5_loading_once:
  "(\<exists>k m. map loading (states (mount c) t) = replicate (Suc k) True @ replicate m False) \<and>
   filter is_SetLoading (calls (run (mount c) t)) =
     (if pc (run (mount c) t) = Done then [SetLoading False] else []) \<and>
   map loading (states (mount c) (FetchRejected E # t)) =
     True # replicate (Suc (length t)) False \<and>
   map loading (states (mount c) (FetchResolved r # JsonRejected E # t)) =
     True # True # replicate (Suc (length t)) False \<and>
   map loading (states (mount c) (FetchResolved r # JsonResolved P # t)) =
     True # True # replicate (Suc (length t)) False \<and>
   filter is_SetLoading (calls (run (mount c) (FetchRejected E # t))) = [SetLoading False] \<and>
   filter is_SetLoading (calls (run (mount c) (FetchResolved r # JsonRejected E # t))) =
     [SetLoading False] \<and>
   filter is_SetLoading (calls (run (mount c) (FetchResolved r # JsonResolved P # t))) =
     [SetLoading False]"
proof (intro conjI)
  have l: "loading (mount c)" by (simp add: hook_defs)
  then show "\<exists>k m. map loading (states (mount c) t) =
      replicate (Suc k) True @ replicate m False"
    by (rule loading_states_shape)
  show "filter is_SetLoading (calls (run (mount c) t)) =
     (if pc (run (mount c) t) = Done then [SetLoading False] else [])"
    by (rule setLoading_calls_reach [OF reach_inv_reachable])
  have "\<not> loading (step (FetchRejected E) (mount c))" by (simp add: hook_defs)
  from loading_states_False [OF this, of t] l
  show "map loading (states (mount c) (FetchRejected E # t)) =
     True # replicate (Suc (length t)) False" by simp
  have l1: "loading (step (FetchResolved r) (mount c))" by (simp add: hook_defs)
  have "\<not> loading (step (JsonRejected E) (step (FetchResolved r) (mount c)))"
    by (simp add: hook_defs)
  from loading_states_False [OF this, of t] l l1
  show "map loading (states (mount c) (FetchResolved r # JsonRejected E # t)) =
     True # True # replicate (Suc (length t)) False" by simp
  have "\<not> loading (step (JsonResolved P) (step (FetchResolved r) (mount c)))"
    by (simp add: hook_defs)
  from loading_states_False [OF this, of t] l l1
  show "map loading (states (mount c) (FetchResolved r # JsonResolved P # t)) =
     True # True # replicate (Suc (length t)) False" by simp
  show "filter is_SetLoading (calls (run (mount c) (FetchRejected E # t))) = [SetLoading False]"
    using setLoading_calls_reach [OF reach_inv_reachable, of c "FetchRejected E # t"]
      settled_fetch_rejected [of c E t] by (simp add: cells_def)
  show "filter is_SetLoading (calls (run (mount c) (FetchResolved r # JsonRejected E # t))) =
     [SetLoading False]"
    using setLoading_calls_reach [OF reach_inv_reachable, of c "FetchResolved r # JsonRejected E # t"]
      settled_json_rejected [of c r E t] by (simp add: cells_def)
  show "filter is_SetLoading (calls (run (mount c) (FetchResolved r # JsonResolved P # t))) =
     [SetLoading False]"
    using setLoading_calls_reach [OF reach_inv_reachable, of c "FetchResolved r # JsonResolved P # t"]
      settled_json_resolved [of c r P t] by (simp add: cells_def)
qed

text \<open>
  C1. The claim: when an activation is unmounted before the fetch completes, the
  cleanup's abort prevents every later assignment of \<open>data\<close>, \<open>error\<close> and \<open>loading\<close>;
  in particular the \<open>catch\<close> branch does not set \<open>error\<close> and the \<open>finally\<close> branch does
  not set \<open>loading\<close> after teardown. The hook does not do that. The cleanup only calls
  \<open>abort\<close>; the \<open>catch\<close> and \<open>finally\<close> blocks test neither the signal nor the kind of
  the rejection, and an aborted fetch rejects its promise (with an AbortError). So
  after the cleanup the \<open>catch\<close> block calls \<open>setError\<close> and the \<open>finally\<close> block calls
  \<open>setLoading(false)\<close>: after the unmount the log ends with the abort, and after the
  rejection that follows it has both calls behind the abort.
\<close>

theorem C1_assignments_after_cleanup_counterexample:
  "calls (run (mount 0) [Unmount]) =
     [Fetch API_URL \<lparr>init_method = None, init_signal = Some 0\<rparr>, Abort 0] \<and>
   calls (run (mount 0)
       [Unmount, FetchRejected (JError ''AbortError'' ''The operation was aborted.'')]) =
     [Fetch API_URL \<lparr>init_method = None, init_signal = Some 0\<rparr>, Abort 0,
      SetError (JError ''AbortError'' ''The operation was aborted.''), SetLoading False]"
  by (simp add: hook_defs)

text \<open>
  C1, as amended. When an activation is unmounted while \<open>fetchData\<close> is still
  suspended, the cleanup calls \<open>abort\<close> on the request's controller and nothing else,
  and no request is started afterwards. It does not stop \<open>fetchData\<close>: when the awaited
  promise (of \<open>fetch\<close>, or of \<open>response.json()\<close>) then rejects with \<open>E\<close>, the \<open>catch\<close>
  branch calls \<open>setError(E)\<close> and the \<open>finally\<close> branch calls \<open>setLoading(false)\<close>, after
  the abort, and the log stays so. What keeps the state from changing is React, not
  the abort: the component is unmounted, the updates are dropped, and the cells stay
  \<open>(null, null, true)\<close> whatever arrives. With a \<open>fetch\<close> that honours the signal (after
  the abort the pending promises only reject), \<open>setData\<close> is never called.
\<close>

theorem C1_cleanup_aborts_only:
  assumes "Unmount \<notin> set t1"
    and "pc (run (mount c) t1) \<noteq> Done"
  shows "calls (run (mount c) (t1 @ [Unmount])) = calls (run (mount c) t1) @ [Abort c] \<and>
         (pc (run (mount c) t1) = AwaitFetch \<longrightarrow>
            calls (run (mount c) (t1 @ Unmount # FetchRejected E # t2)) =
              calls (run (mount c) t1) @ [Abort c, SetError E, SetLoading False]) \<and>
         (pc (run (mount c) t1) = AwaitJson \<longrightarrow>
            calls (run (mount c) (t1 @ Unmount # JsonRejected E # t2)) =
              calls (run (mount c) t1) @ [Abort c, SetError E, SetLoading False]) \<and>
         render (run (mount c) (t1 @ Unmount # t2)) = (JNull, JNull, True) \<and>
         requests (run (mount c) (t1 @ Unmount # t2)) = requests (run (mount c) t1) \<and>
         (honours_abort t2 \<longrightarrow>
            (\<forall>v. SetData v \<notin> set (calls (run (mount c) (t1 @ Unmount # t2)))))"
proof -
  define s1 where "s1 = run (mount c) t1"
  define u where "u = step Unmount s1"
  have inv: "reach_inv c s1" unfolding s1_def by (rule reach_inv_reachable)
  have pend: "pc s1 \<noteq> Done" using assms(2) by (simp add: s1_def)
  have m: "mounted s1"
    using assms(1) mounted_run [of "mount c" t1] by (simp add: s1_def mount_def fetchData_def)
  have cells1: "data s1 = JNull \<and> error s1 = JNull \<and> loading s1 \<and> abortController s1 = c"
    using inv pend by (cases "pc s1") (simp_all add: reach_inv_def)
  have nodata: "\<And>v. SetData v \<notin> set (calls s1)"
  proof
    fix v assume "SetData v \<in> set (calls s1)"
    then have "SetData v \<in> set (work s1)" by (simp add: in_work)
    then show False
      using inv pend by (cases "pc s1") (auto simp: reach_inv_def the_request_def)
  qed
  have u: "u = s1\<lparr>calls := calls s1 @ [Abort c], mounted := False\<rparr>"
    using m cells1 by (simp add: u_def cleanup_def)
  have run_u: "\<And>t. run (mount c) (t1 @ Unmount # t) = run u t"
    by (simp add: u_def s1_def run_append)
  have pu: "pc u \<noteq> Done" and mu: "\<not> mounted u" using pend by (simp_all add: u)
  have c1: "calls (run (mount c) (t1 @ [Unmount])) = calls s1 @ [Abort c]"
    using run_u [of "[]"] by (simp add: u)
  have fin: "\<And>e. run (catch_branch e u) t2 = catch_branch e u"
    using mu by (intro run_Done_unmounted) (simp_all add: hook_defs)
  have c2: "pc s1 = AwaitFetch \<longrightarrow>
      calls (run (mount c) (t1 @ Unmount # FetchRejected E # t2)) =
        calls s1 @ [Abort c, SetError E, SetLoading False]"
  proof
    assume "pc s1 = AwaitFetch"
    then have "step (FetchRejected E) u = catch_branch E u"
      by (simp add: u resume_fetch_def)
    then have "run u (FetchRejected E # t2) = catch_branch E u" using fin by simp
    then show "calls (run (mount c) (t1 @ Unmount # FetchRejected E # t2)) =
        calls s1 @ [Abort c, SetError E, SetLoading False]"
      unfolding run_u by (simp add: u hook_defs)
  qed
  have c3: "pc s1 = AwaitJson \<longrightarrow>
      calls (run (mount c) (t1 @ Unmount # JsonRejected E # t2)) =
        calls s1 @ [Abort c, SetError E, SetLoading False]"
  proof
    assume "pc s1 = AwaitJson"
    then have "step (JsonRejected E) u = catch_branch E u"
      by (simp add: u resume_json_def)
    then have "run u (JsonRejected E # t2) = catch_branch E u" using fin by simp
    then show "calls (run (mount c) (t1 @ Unmount # JsonRejected E # t2)) =
        calls s1 @ [Abort c, SetError E, SetLoading False]"
      unfolding run_u by (simp add: u hook_defs)
  qed
  have c4: "render (run (mount c) (t1 @ Unmount # t2)) = (JNull, JNull, True)"
    unfolding run_u using run_unmounted [OF mu, of t2] cells1 by (simp add: render_def u)
  have c5: "requests (run (mount c) (t1 @ Unmount # t2)) = requests s1"
    using requests_reach [OF reach_inv_reachable, of c "t1 @ Unmount # t2"]
      requests_reach [OF inv] by simp
  have c6: "honours_abort t2 \<longrightarrow>
      (\<forall>v. SetData v \<notin> set (calls (run (mount c) (t1 @ Unmount # t2))))"
  proof
    assume "honours_abort t2"
    with pu mu have "run u t2 = u \<or> (\<exists>e. run u t2 = catch_branch e u)"
      by (rule run_aborted)
    then show "\<forall>v. SetData v \<notin> set (calls (run (mount c) (t1 @ Unmount # t2)))"
      unfolding run_u using nodata by (auto simp: u hook_defs)
  qed
  from c1 c2 c3 c4 c5 c6 show ?thesis unfolding s1_def by blast
qed

theorem C1_cleanup_aborts_only_witness:
  "Unmount \<notin> set [FetchResolved \<lparr>status = 200\<rparr>] \<and>
   pc (run (mount 0) [FetchResolved \<lparr>status = 200\<rparr>]) = AwaitJson \<and>
   honours_abort [JsonRejected (JStr ''aborted'')] \<and>
   calls (run (mount 0) ([FetchResolved \<lparr>status = 200\<rparr>] @ Unmount #
       JsonRejected (JError ''AbortError'' ''The operation was aborted.'') #
       [JsonRejected (JStr ''aborted'')])) =
     calls (run (mount 0) [FetchResolved \<lparr>status = 200\<rparr>]) @
     [Abort 0, SetError (JError ''AbortError'' ''The operation was aborted.''), SetLoading False] \<and>
   render (run (mount 0) ([FetchResolved \<lparr>status = 200\<rparr>] @ Unmount #
       [JsonRejected (JStr ''aborted'')])) = (JNull, JNull, True) \<and>
   SetData JNull \<notin> set (calls (run (mount 0) ([FetchResolved \<lparr>status = 200\<rparr>] @ Unmount #
       [JsonRejected (JStr ''aborted'')])))"
  using C1_cleanup_aborts_only [of "[FetchResolved \<lparr>status = 200\<rparr>]" 0
    "JError ''AbortError'' ''The operation was aborted.''" "[JsonRejected (JStr ''aborted'')]"]
  by (simp add: hook_defs honours_abort_def)

end
